theory Spec2Isabelle
  imports Main "HOL-Library.Stream"
begin

section \<open>Data model of \<^verbatim>\<open>src/main.cpp\<close>\<close>

text \<open>
  The three anonymous enums of the program. Cells and game states are plain C++ \<^verbatim>\<open>int\<close>s;
  the players are the primes 7 and 11, and \<^verbatim>\<open>DRAW\<close> is the enumerator after
  \<^verbatim>\<open>COMPUTER_WON = 11\<close>, that is 12.
\<close>

definition EMPTY :: int where [simp]: "EMPTY = 0"
definition USER :: int where [simp]: "USER = 7"
definition COMPUTER :: int where [simp]: "COMPUTER = 11"

definition IN_PROGRESS :: int where [simp]: "IN_PROGRESS = 0"
definition USER_WON :: int where [simp]: "USER_WON = USER"
definition COMPUTER_WON :: int where [simp]: "COMPUTER_WON = COMPUTER"
definition DRAW :: int where [simp]: "DRAW = COMPUTER_WON + 1"

text \<open>\<^verbatim>\<open>struct Cell { int row; int col; }\<close> with its constructor \<^verbatim>\<open>Cell(r, c)\<close>.\<close>

datatype Cell = Cell (row: int) (col: int)

text \<open>
  \<^verbatim>\<open>int board[3][3]\<close>: a list of rows. \<open>cell_at b r c\<close> reads \<^verbatim>\<open>board[r][c]\<close> and
  \<open>set_cell b r c v\<close> is the assignment \<^verbatim>\<open>board[r][c] = v\<close>; the indices are the program's
  \<^verbatim>\<open>int\<close>s. The program only indexes with values it has checked to be in 0..2
  (loop counters, \<^verbatim>\<open>rand() % 3\<close>, and cells guarded by \<^verbatim>\<open>row >= 0 && col >= 0\<close>).
\<close>

type_synonym board = "int list list"

definition cell_at :: "board \<Rightarrow> int \<Rightarrow> int \<Rightarrow> int" where
  "cell_at b r c = b ! nat r ! nat c"

definition set_cell :: "board \<Rightarrow> int \<Rightarrow> int \<Rightarrow> int \<Rightarrow> board" where
  "set_cell b r c v = b[nat r := (b ! nat r)[nat c := v]]"

text \<open>
  The boards the program works on: three rows of three cells, each cell one of the three
  enumerators. On these boards the sum of a line is at most 33, so the \<^verbatim>\<open>int\<close> additions of
  \<^verbatim>\<open>playerCanWin\<close> cannot overflow and unbounded \<open>int\<close> computes what the machine does.
\<close>

definition valid_board :: "board \<Rightarrow> bool" where
  "valid_board b \<longleftrightarrow>
     length b = 3 \<and>
     list_all (\<lambda>r. length r = 3 \<and> list_all (\<lambda>x. x = EMPTY \<or> x = USER \<or> x = COMPUTER) r) b"

definition empty_board :: board where
  "empty_board = [[EMPTY, EMPTY, EMPTY], [EMPTY, EMPTY, EMPTY], [EMPTY, EMPTY, EMPTY]]"

section \<open>The random source\<close>

text \<open>
  \<^verbatim>\<open>rand()\<close> is a call into the C library. Its successive results are a parameter of the
  model: an infinite stream of non-negative numbers, of which each call takes the head.
\<close>

type_synonym rng = "nat stream"

definition rand :: "rng \<Rightarrow> int \<times> rng" where
  "rand s = (int (shd s), stl s)"

section \<open>Move strategies\<close>

text \<open>
  The \<^verbatim>\<open>do ... while (board[row][col] != EMPTY)\<close> loop of \<^verbatim>\<open>ai_random\<close>. Nothing bounds the
  number of rounds, so the loop is a partial function: \<open>None\<close> is the run that never
  leaves the loop.
\<close>

partial_function (option) ai_random_loop :: "board \<Rightarrow> rng \<Rightarrow> (int \<times> int \<times> rng) option" where
  "ai_random_loop b s =
     (case rand s of (x, s1) \<Rightarrow>
      case rand s1 of (y, s2) \<Rightarrow>
        if cell_at b (x mod 3) (y mod 3) \<noteq> EMPTY then ai_random_loop b s2
        else Some (x mod 3, y mod 3, s2))"

definition ai_random :: "board \<Rightarrow> rng \<Rightarrow> (board \<times> rng) option" where
  "ai_random b s =
     (case ai_random_loop b s of
        None \<Rightarrow> None
      | Some (r, c, s') \<Rightarrow> Some (set_cell b r c COMPUTER, s'))"

text \<open>
  \<^verbatim>\<open>ai_smart\<close>: the centre, then the corners in the order (0,0), (0,2), (2,0), (2,2), then
  \<^verbatim>\<open>ai_random\<close>, after which \<^verbatim>\<open>row = col = -1\<close> switches the final assignment off.
\<close>

definition ai_smart :: "board \<Rightarrow> rng \<Rightarrow> (board \<times> rng) option" where
  "ai_smart b s =
     (case (if cell_at b 1 1 = EMPTY then Some (1, 1, b, s)
            else if cell_at b 0 0 = EMPTY then Some (0, 0, b, s)
            else if cell_at b 0 2 = EMPTY then Some (0, 2, b, s)
            else if cell_at b 2 0 = EMPTY then Some (2, 0, b, s)
            else if cell_at b 2 2 = EMPTY then Some (2, 2, b, s)
            else (case ai_random b s of
                    None \<Rightarrow> None
                  | Some (b1, s1) \<Rightarrow> Some (- 1, - 1, b1, s1))) of
        None \<Rightarrow> None
      | Some (r, c, b1, s1) \<Rightarrow>
          Some (if r \<ge> 0 \<and> c \<ge> 0 then set_cell b1 r c COMPUTER else b1, s1))"

section \<open>Threat detector\<close>

text \<open>The inner loops of \<^verbatim>\<open>playerCanWin\<close>: the first empty cell of row \<open>r\<close>, of column \<open>c\<close>.\<close>

fun first_empty_in_row :: "board \<Rightarrow> int \<Rightarrow> int list \<Rightarrow> Cell option" where
  "first_empty_in_row b r [] = None"
| "first_empty_in_row b r (c # cs) =
     (if cell_at b r c = EMPTY then Some (Cell r c) else first_empty_in_row b r cs)"

fun first_empty_in_col :: "board \<Rightarrow> int \<Rightarrow> int list \<Rightarrow> Cell option" where
  "first_empty_in_col b c [] = None"
| "first_empty_in_col b c (r # rs) =
     (if cell_at b r c = EMPTY then Some (Cell r c) else first_empty_in_col b c rs)"

text \<open>
  The outer loops over \<^verbatim>\<open>r = 0, 1, 2\<close> and \<^verbatim>\<open>c = 0, 1, 2\<close>. A line whose sum is the target
  but which has no empty cell does not return: the loop goes on to the next line.
\<close>

fun rows_loop :: "board \<Rightarrow> int \<Rightarrow> int list \<Rightarrow> Cell option" where
  "rows_loop b target [] = None"
| "rows_loop b target (r # rs) =
     (if cell_at b r 0 + cell_at b r 1 + cell_at b r 2 = target
      then (case first_empty_in_row b r [0, 1, 2] of
              Some x \<Rightarrow> Some x
            | None \<Rightarrow> rows_loop b target rs)
      else rows_loop b target rs)"

fun cols_loop :: "board \<Rightarrow> int \<Rightarrow> int list \<Rightarrow> Cell option" where
  "cols_loop b target [] = None"
| "cols_loop b target (c # cs) =
     (if cell_at b 0 c + cell_at b 1 c + cell_at b 2 c = target
      then (case first_empty_in_col b c [0, 1, 2] of
              Some x \<Rightarrow> Some x
            | None \<Rightarrow> cols_loop b target cs)
      else cols_loop b target cs)"

definition diag_ltr :: "board \<Rightarrow> int \<Rightarrow> Cell option" where
  "diag_ltr b target =
     (if cell_at b 0 0 + cell_at b 1 1 + cell_at b 2 2 = target
      then (if cell_at b 0 0 = EMPTY then Some (Cell 0 0)
            else if cell_at b 1 1 = EMPTY then Some (Cell 1 1)
            else if cell_at b 2 2 = EMPTY then Some (Cell 2 2)
            else None)
      else None)"

definition diag_rtl :: "board \<Rightarrow> int \<Rightarrow> Cell option" where
  "diag_rtl b target =
     (if cell_at b 0 2 + cell_at b 1 1 + cell_at b 2 0 = target
      then (if cell_at b 0 2 = EMPTY then Some (Cell 0 2)
            else if cell_at b 1 1 = EMPTY then Some (Cell 1 1)
            else if cell_at b 2 0 = EMPTY then Some (Cell 2 0)
            else None)
      else None)"

definition playerCanWin :: "board \<Rightarrow> int \<Rightarrow> Cell" where
  "playerCanWin b which =
     (let target = which * 2 in
      case rows_loop b target [0, 1, 2] of
        Some x \<Rightarrow> x
      | None \<Rightarrow>
     (case cols_loop b target [0, 1, 2] of
        Some x \<Rightarrow> x
      | None \<Rightarrow>
     (case diag_ltr b target of
        Some x \<Rightarrow> x
      | None \<Rightarrow>
     (case diag_rtl b target of
        Some x \<Rightarrow> x
      | None \<Rightarrow> Cell (- 1) (- 1)))))"

definition userCanWin :: "board \<Rightarrow> Cell" where
  "userCanWin b = playerCanWin b USER"

definition computerCanWin :: "board \<Rightarrow> Cell" where
  "computerCanWin b = playerCanWin b COMPUTER"

text \<open>\<^verbatim>\<open>ai_genious\<close>: centre, then the computer's winning cell, then the user's, then \<^verbatim>\<open>ai_smart\<close>.\<close>

definition ai_genious :: "board \<Rightarrow> rng \<Rightarrow> (board \<times> rng) option" where
  "ai_genious b s =
     (if cell_at b 1 1 = EMPTY then Some (set_cell b 1 1 COMPUTER, s)
      else
        let c = computerCanWin b in
        if row c \<ge> 0 \<and> col c \<ge> 0 then Some (set_cell b (row c) (col c) COMPUTER, s)
        else
          let c = userCanWin b in
          if row c \<ge> 0 \<and> col c \<ge> 0 then Some (set_cell b (row c) (col c) COMPUTER, s)
          else ai_smart b s)"

section \<open>Outcome evaluator\<close>

text \<open>The condition of the \<^verbatim>\<open>if\<close> inside the player loop of \<^verbatim>\<open>isGameOver\<close>.\<close>

definition player_won :: "board \<Rightarrow> int \<Rightarrow> bool" where
  "player_won b player \<longleftrightarrow>
     (cell_at b 0 1 = player \<and> cell_at b 0 0 = player \<and> cell_at b 0 2 = player)
   \<or> (cell_at b 1 0 = player \<and> cell_at b 0 0 = player \<and> cell_at b 2 0 = player)
   \<or> (cell_at b 2 1 = player \<and> cell_at b 2 0 = player \<and> cell_at b 2 2 = player)
   \<or> (cell_at b 1 2 = player \<and> cell_at b 0 2 = player \<and> cell_at b 2 2 = player)
   \<or> (cell_at b 1 1 = player \<and>
        ((cell_at b 0 1 = player \<and> cell_at b 2 1 = player)
       \<or> (cell_at b 1 0 = player \<and> cell_at b 1 2 = player)
       \<or> (cell_at b 0 0 = player \<and> cell_at b 2 2 = player)
       \<or> (cell_at b 2 0 = player \<and> cell_at b 0 2 = player)))"

text \<open>
  The loop \<^verbatim>\<open>for (player = USER; player <= COMPUTER; player += COMPUTER - USER)\<close> runs for
  7 and then 11, and returns the first player who has won.
\<close>

fun players_loop :: "board \<Rightarrow> int list \<Rightarrow> int option" where
  "players_loop b [] = None"
| "players_loop b (player # ps) =
     (if player_won b player then Some player else players_loop b ps)"

text \<open>The two nested loops that set \<^verbatim>\<open>moreMoves\<close>, columns outside and rows inside.\<close>

definition moreMoves :: "board \<Rightarrow> bool" where
  "moreMoves b =
     fold (\<lambda>c m. fold (\<lambda>r m'. if cell_at b r c = EMPTY then True else m') [0, 1, 2] m)
          [0, 1, 2] False"

definition isGameOver :: "board \<Rightarrow> int" where
  "isGameOver b =
     (case players_loop b [USER, USER + (COMPUTER - USER)] of
        Some player \<Rightarrow> player
      | None \<Rightarrow> if moreMoves b then IN_PROGRESS else DRAW)"

section \<open>Notions of the specification\<close>

text \<open>
  A coordinate is a (row, column) pair. The eight winning lines, in the scan order the
  specification gives for the threat detector: rows, then columns, then the two diagonals.
\<close>

type_synonym coord = "int \<times> int"

definition lines :: "coord list list" where
  "lines =
     [[(0, 0), (0, 1), (0, 2)], [(1, 0), (1, 1), (1, 2)], [(2, 0), (2, 1), (2, 2)],
      [(0, 0), (1, 0), (2, 0)], [(0, 1), (1, 1), (2, 1)], [(0, 2), (1, 2), (2, 2)],
      [(0, 0), (1, 1), (2, 2)],
      [(0, 2), (1, 1), (2, 0)]]"

definition all_cells :: "coord list" where
  "all_cells = [(0, 0), (0, 1), (0, 2), (1, 0), (1, 1), (1, 2), (2, 0), (2, 1), (2, 2)]"

definition in_range :: "int \<Rightarrow> bool" where
  "in_range i \<longleftrightarrow> 0 \<le> i \<and> i < 3"

definition valid_value :: "int \<Rightarrow> bool" where
  "valid_value x \<longleftrightarrow> x = EMPTY \<or> x = USER \<or> x = COMPUTER"

definition owner_is :: "board \<Rightarrow> int \<Rightarrow> coord \<Rightarrow> bool" where
  "owner_is b p rc = (cell_at b (fst rc) (snd rc) = p)"

definition has_empty :: "board \<Rightarrow> bool" where
  "has_empty b = list_ex (owner_is b EMPTY) all_cells"

definition board_full :: "board \<Rightarrow> bool" where
  "board_full b = list_all (\<lambda>rc. \<not> owner_is b EMPTY rc) all_cells"

text \<open>A player has completed a line when all three of its cells are theirs.\<close>

definition owns_line :: "board \<Rightarrow> int \<Rightarrow> coord list \<Rightarrow> bool" where
  "owns_line b p l = list_all (owner_is b p) l"

definition has_line :: "board \<Rightarrow> int \<Rightarrow> bool" where
  "has_line b p = list_ex (owns_line b p) lines"

text \<open>
  The threat detector as the specification words it, by counting: a line is winnable in
  one move for \<open>p\<close> when exactly two of its cells are owned by \<open>p\<close> and exactly one is
  Empty; the answer is the Empty cell of the first such line in scan order, or nothing.
\<close>

definition winnable :: "board \<Rightarrow> int \<Rightarrow> coord list \<Rightarrow> bool" where
  "winnable b p l \<longleftrightarrow>
     length (filter (owner_is b p) l) = 2 \<and> length (filter (owner_is b EMPTY) l) = 1"

definition find_winning_cell :: "board \<Rightarrow> int \<Rightarrow> coord option" where
  "find_winning_cell b p =
     (case find (winnable b p) lines of
        None \<Rightarrow> None
      | Some l \<Rightarrow> find (owner_is b EMPTY) l)"

text \<open>
  The decision order of Genius as the specification lists it, over the counting detector:
  centre, win now, block, Smart.
\<close>

definition genius_spec :: "board \<Rightarrow> rng \<Rightarrow> (board \<times> rng) option" where
  "genius_spec b s =
     (if cell_at b 1 1 = EMPTY then Some (set_cell b 1 1 COMPUTER, s)
      else case find_winning_cell b COMPUTER of
        Some rc \<Rightarrow> Some (set_cell b (fst rc) (snd rc) COMPUTER, s)
      | None \<Rightarrow>
     (case find_winning_cell b USER of
        Some rc \<Rightarrow> Some (set_cell b (fst rc) (snd rc) COMPUTER, s)
      | None \<Rightarrow> ai_smart b s))"



text \<open>
  Auxiliary view of \<^verbatim>\<open>playerCanWin\<close>: every one of the eight lines is tried the same way
  (sum against the target, then the first empty cell), one after the other.
\<close>

definition to_Cell :: "coord \<Rightarrow> Cell" where
  "to_Cell rc = Cell (fst rc) (snd rc)"

definition try_line :: "board \<Rightarrow> int \<Rightarrow> coord list \<Rightarrow> Cell option" where
  "try_line b target l =
     (if sum_list (map (\<lambda>rc. cell_at b (fst rc) (snd rc)) l) = target
      then map_option to_Cell (find (owner_is b EMPTY) l) else None)"

fun scan_lines :: "board \<Rightarrow> int \<Rightarrow> coord list list \<Rightarrow> Cell option" where
  "scan_lines b target [] = None"
| "scan_lines b target (l # ls) =
     (case try_line b target l of Some x \<Rightarrow> Some x | None \<Rightarrow> scan_lines b target ls)"

section \<open>The threat detector computes the counting specification\<close>

text \<open>
  Every cell the program reads on one of its boards holds one of the three enumerators.
\<close>

lemma valid_cell_at:
  assumes "valid_board b" "in_range r" "in_range c"
  shows "valid_value (cell_at b r c)"
proof -
  have r: "nat r < length b"
    using assms by (auto simp: valid_board_def in_range_def)
  then have "b ! nat r \<in> set b" by simp
  with assms(1) have row: "length (b ! nat r) = 3"
    and vals: "\<forall>x \<in> set (b ! nat r). valid_value x"
    by (auto simp: valid_board_def list_all_iff valid_value_def)
  from row assms(3) have "nat c < length (b ! nat r)"
    by (auto simp: in_range_def)
  then have "b ! nat r ! nat c \<in> set (b ! nat r)"
    by simp
  with vals show ?thesis by (simp add: cell_at_def)
qed

text \<open>
  The loops of \<^verbatim>\<open>playerCanWin\<close> try the eight lines of \<open>lines\<close> one after the other, on
  any board: this step uses nothing but the definitions.
\<close>

lemma first_empty_in_row_find:
  "first_empty_in_row b r cs = map_option to_Cell (find (owner_is b EMPTY) (map (Pair r) cs))"
  by (induction cs) (simp_all add: owner_is_def to_Cell_def)

lemma first_empty_in_col_find:
  "first_empty_in_col b c rs =
     map_option to_Cell (find (owner_is b EMPTY) (map (\<lambda>r. (r, c)) rs))"
  by (induction rs) (simp_all add: owner_is_def to_Cell_def)

lemma rows_loop_scan:
  "rows_loop b t rs = scan_lines b t (map (\<lambda>r. [(r, 0), (r, 1), (r, 2)]) rs)"
  by (induction rs) (simp_all add: try_line_def first_empty_in_row_find split: option.splits)

lemma cols_loop_scan:
  "cols_loop b t cs = scan_lines b t (map (\<lambda>c. [(0, c), (1, c), (2, c)]) cs)"
  by (induction cs) (simp_all add: try_line_def first_empty_in_col_find split: option.splits)

lemma diag_ltr_scan: "diag_ltr b t = try_line b t [(0, 0), (1, 1), (2, 2)]"
  by (simp add: diag_ltr_def try_line_def owner_is_def to_Cell_def)

lemma diag_rtl_scan: "diag_rtl b t = try_line b t [(0, 2), (1, 1), (2, 0)]"
  by (simp add: diag_rtl_def try_line_def owner_is_def to_Cell_def)

lemma scan_lines_append:
  "scan_lines b t (xs @ ys) =
     (case scan_lines b t xs of Some x \<Rightarrow> Some x | None \<Rightarrow> scan_lines b t ys)"
  by (induction xs) (simp_all split: option.splits)

lemma lines_split:
  "lines = map (\<lambda>r. [(r, 0), (r, 1), (r, 2)]) [0, 1, 2] @
           map (\<lambda>c. [(0, c), (1, c), (2, c)]) [0, 1, 2] @
           [[(0, 0), (1, 1), (2, 2)]] @ [[(0, 2), (1, 1), (2, 0)]]"
  by (simp add: lines_def)

lemma playerCanWin_scan:
  "playerCanWin b which =
     (case scan_lines b (which * 2) lines of Some x \<Rightarrow> x | None \<Rightarrow> Cell (- 1) (- 1))"
  unfolding lines_split scan_lines_append playerCanWin_def Let_def
    rows_loop_scan cols_loop_scan diag_ltr_scan diag_rtl_scan
  by (simp split: option.splits)

text \<open>
  The prime encoding: on the values 0, 7 and 11, three cells sum to twice a player's
  prime exactly when two of them are the player's and one is Empty.
\<close>

lemma try_line_winnable:
  assumes "valid_value (cell_at b r1 c1)" "valid_value (cell_at b r2 c2)"
    "valid_value (cell_at b r3 c3)" "p = USER \<or> p = COMPUTER"
  shows "try_line b (p * 2) [(r1, c1), (r2, c2), (r3, c3)] =
           (if winnable b p [(r1, c1), (r2, c2), (r3, c3)]
            then map_option to_Cell (find (owner_is b EMPTY) [(r1, c1), (r2, c2), (r3, c3)])
            else None)"
    and "winnable b p [(r1, c1), (r2, c2), (r3, c3)] \<Longrightarrow>
           find (owner_is b EMPTY) [(r1, c1), (r2, c2), (r3, c3)] \<noteq> None"
  using assms
  by (auto simp: try_line_def winnable_def owner_is_def valid_value_def)

lemma lines_shape:
  assumes "l \<in> set lines"
  obtains r1 c1 r2 c2 r3 c3 where "l = [(r1, c1), (r2, c2), (r3, c3)]"
    "in_range r1" "in_range c1" "in_range r2" "in_range c2" "in_range r3" "in_range c3"
  using assms unfolding lines_def in_range_def by auto

lemma line_cells_valid:
  assumes "valid_board b" "l \<in> set lines" "p = USER \<or> p = COMPUTER"
  shows "try_line b (p * 2) l =
           (if winnable b p l then map_option to_Cell (find (owner_is b EMPTY) l) else None)"
proof -
  from assms(2) obtain r1 c1 r2 c2 r3 c3 where l: "l = [(r1, c1), (r2, c2), (r3, c3)]"
    and rg: "in_range r1" "in_range c1" "in_range r2" "in_range c2" "in_range r3" "in_range c3"
    by (rule lines_shape)
  show ?thesis
    unfolding l
    by (rule try_line_winnable(1)
          [OF valid_cell_at[OF assms(1) rg(1,2)] valid_cell_at[OF assms(1) rg(3,4)]
              valid_cell_at[OF assms(1) rg(5,6)] assms(3)])
qed

lemma find_Some_ex: "x \<in> set xs \<Longrightarrow> P x \<Longrightarrow> \<exists>y. find P xs = Some y"
  by (induction xs) auto

lemma find_Some_mem: "find P xs = Some y \<Longrightarrow> y \<in> set xs \<and> P y"
  by (induction xs) (auto split: if_splits)

lemma winnable_find_empty:
  assumes "winnable b p l"
  shows "\<exists>rc. find (owner_is b EMPTY) l = Some rc \<and> rc \<in> set l \<and> owner_is b EMPTY rc"
proof -
  from assms have "filter (owner_is b EMPTY) l \<noteq> []"
    by (auto simp: winnable_def)
  then obtain rc where "rc \<in> set l" "owner_is b EMPTY rc"
    by (auto simp: filter_empty_conv)
  then obtain rc' where rc': "find (owner_is b EMPTY) l = Some rc'"
    using find_Some_ex[of rc l "owner_is b EMPTY"] by auto
  then have "rc' \<in> set l \<and> owner_is b EMPTY rc'"
    by (rule find_Some_mem)
  with rc' show ?thesis by simp
qed

lemma scan_lines_find:
  assumes "valid_board b" "p = USER \<or> p = COMPUTER" "set ls \<subseteq> set lines"
  shows "scan_lines b (p * 2) ls =
           (case find (winnable b p) ls of
              None \<Rightarrow> None
            | Some l \<Rightarrow> map_option to_Cell (find (owner_is b EMPTY) l))"
  using assms(3)
proof (induction ls)
  case Nil
  then show ?case by simp
next
  case (Cons l ls)
  then have l: "l \<in> set lines" and ls: "set ls \<subseteq> set lines" by auto
  show ?case
  proof (cases "winnable b p l")
    case True
    then obtain rc where "find (owner_is b EMPTY) l = Some rc"
      using winnable_find_empty by blast
    with True show ?thesis
      by (simp add: line_cells_valid[OF assms(1) l assms(2)])
  next
    case False
    then show ?thesis
      by (simp add: line_cells_valid[OF assms(1) l assms(2)] Cons.IH[OF ls])
  qed
qed

lemma playerCanWin_find_winning_cell:
  assumes "valid_board b" "p = USER \<or> p = COMPUTER"
  shows "playerCanWin b p =
           (case find_winning_cell b p of
              None \<Rightarrow> Cell (- 1) (- 1)
            | Some rc \<Rightarrow> to_Cell rc)"
proof -
  have "scan_lines b (p * 2) lines = map_option to_Cell (find_winning_cell b p)"
    using scan_lines_find[OF assms subset_refl]
    by (simp add: find_winning_cell_def split: option.splits)
  then show ?thesis
    by (simp add: playerCanWin_scan split: option.splits)
qed

lemma find_winning_cell_Some:
  assumes "find_winning_cell b p = Some rc"
  shows "in_range (fst rc) \<and> in_range (snd rc) \<and> cell_at b (fst rc) (snd rc) = EMPTY"
proof -
  from assms obtain l where l: "find (winnable b p) lines = Some l"
    and rc: "find (owner_is b EMPTY) l = Some rc"
    by (auto simp: find_winning_cell_def split: option.splits)
  from l have "l \<in> set lines" by (simp add: find_Some_mem)
  moreover from rc have "rc \<in> set l" "owner_is b EMPTY rc" by (simp_all add: find_Some_mem)
  ultimately show ?thesis
    by (auto simp: lines_def owner_is_def in_range_def)
qed

lemma first_winnable:
  assumes "l \<in> set lines" "winnable b p l"
  shows "\<exists>l0 rc. find (winnable b p) lines = Some l0 \<and> l0 \<in> set lines \<and> winnable b p l0 \<and>
           find (owner_is b EMPTY) l0 = Some rc \<and> rc \<in> set l0 \<and> owner_is b EMPTY rc \<and>
           find_winning_cell b p = Some rc"
proof -
  from assms obtain l0 where l0: "find (winnable b p) lines = Some l0"
    using find_Some_ex[of l lines "winnable b p"] by auto
  then have m: "l0 \<in> set lines \<and> winnable b p l0"
    by (rule find_Some_mem)
  then obtain rc where rc: "find (owner_is b EMPTY) l0 = Some rc" "rc \<in> set l0"
    "owner_is b EMPTY rc"
    using winnable_find_empty[of b p l0] by auto
  from l0 rc(1) have "find_winning_cell b p = Some rc"
    by (simp add: find_winning_cell_def)
  with l0 m rc show ?thesis by blast
qed

lemma no_winnable:
  assumes "\<forall>l \<in> set lines. \<not> winnable b p l"
  shows "find_winning_cell b p = None"
proof -
  have "find (winnable b p) lines = None"
  proof (cases "find (winnable b p) lines")
    case None
    then show ?thesis .
  next
    case (Some l0)
    then have "l0 \<in> set lines \<and> winnable b p l0" by (rule find_Some_mem)
    with assms show ?thesis by blast
  qed
  then show ?thesis by (simp add: find_winning_cell_def)
qed

text \<open>
  Claim C4. On every board of the program, for either player: when the player holds exactly
  two cells of some line whose third cell is Empty, \<^verbatim>\<open>playerCanWin\<close> returns the Empty cell
  of the first line with that property in the scan order of \<open>lines\<close> (rows, then columns,
  then the two diagonals).
\<close>

theorem playerCanWin_first_winnable_line:
  assumes "valid_board b" and "p = USER \<or> p = COMPUTER"
    and "l \<in> set lines" and "winnable b p l"
  shows "\<exists>l0 rc. find (winnable b p) lines = Some l0 \<and> l0 \<in> set lines \<and> winnable b p l0 \<and>
           find (owner_is b EMPTY) l0 = Some rc \<and> rc \<in> set l0 \<and> owner_is b EMPTY rc \<and>
           playerCanWin b p = Cell (fst rc) (snd rc)"
proof -
  from first_winnable[OF assms(3,4)] obtain l0 rc where
    *: "find (winnable b p) lines = Some l0" "l0 \<in> set lines" "winnable b p l0"
       "find (owner_is b EMPTY) l0 = Some rc" "rc \<in> set l0" "owner_is b EMPTY rc"
       "find_winning_cell b p = Some rc"
    by blast
  have "playerCanWin b p = Cell (fst rc) (snd rc)"
    by (simp add: playerCanWin_find_winning_cell[OF assms(1,2)] *(7) to_Cell_def)
  with * show ?thesis by blast
qed

theorem playerCanWin_first_winnable_line_witness:
  "valid_board [[USER, EMPTY, USER], [EMPTY, COMPUTER, EMPTY], [USER, EMPTY, COMPUTER]] \<and>
   winnable [[USER, EMPTY, USER], [EMPTY, COMPUTER, EMPTY], [USER, EMPTY, COMPUTER]] USER
     [(0, 0), (1, 0), (2, 0)] \<and>
   playerCanWin [[USER, EMPTY, USER], [EMPTY, COMPUTER, EMPTY], [USER, EMPTY, COMPUTER]] USER
     = Cell 0 1"
proof -
  let ?B = "[[USER, EMPTY, USER], [EMPTY, COMPUTER, EMPTY], [USER, EMPTY, COMPUTER]]"
  have v: "valid_board ?B" by (simp add: valid_board_def)
  have m: "[(0, 0), (1, 0), (2, 0)] \<in> set lines" by (simp add: lines_def)
  have w: "winnable ?B USER [(0, 0), (1, 0), (2, 0)]"
    by (simp add: winnable_def owner_is_def cell_at_def)
  have f: "find (winnable ?B USER) lines = Some [(0, 0), (0, 1), (0, 2)]"
    by (simp add: lines_def winnable_def owner_is_def cell_at_def)
  have e: "find (owner_is ?B EMPTY) [(0, 0), (0, 1), (0, 2)] = Some (0, 1)"
    by (simp add: owner_is_def cell_at_def)
  have u: "USER = USER \<or> USER = COMPUTER" by simp
  from playerCanWin_first_winnable_line [OF v u m w] f e
  have "playerCanWin ?B USER = Cell 0 1" by auto
  with v w show ?thesis by simp
qed

text \<open>
  Claim C7. On every board of the program, for either player: when no line holds exactly
  two cells of the player together with exactly one Empty cell, \<^verbatim>\<open>playerCanWin\<close> returns
  the sentinel \<^verbatim>\<open>Cell(-1, -1)\<close>.
\<close>

theorem playerCanWin_none:
  assumes "valid_board b" and "p = USER \<or> p = COMPUTER"
    and "\<forall>l \<in> set lines. \<not> winnable b p l"
  shows "playerCanWin b p = Cell (- 1) (- 1)"
  by (simp add: playerCanWin_find_winning_cell[OF assms(1,2)] no_winnable[OF assms(3)])

theorem playerCanWin_none_witness:
  "valid_board [[USER, COMPUTER, USER], [EMPTY, COMPUTER, EMPTY], [EMPTY, USER, EMPTY]] \<and>
   \<not> (\<exists>l \<in> set lines.
      winnable [[USER, COMPUTER, USER], [EMPTY, COMPUTER, EMPTY], [EMPTY, USER, EMPTY]] USER l) \<and>
   playerCanWin [[USER, COMPUTER, USER], [EMPTY, COMPUTER, EMPTY], [EMPTY, USER, EMPTY]] USER
     = Cell (- 1) (- 1)"
proof -
  let ?B = "[[USER, COMPUTER, USER], [EMPTY, COMPUTER, EMPTY], [EMPTY, USER, EMPTY]]"
  have v: "valid_board ?B" by (simp add: valid_board_def)
  have n: "\<forall>l \<in> set lines. \<not> winnable ?B USER l"
    by (simp add: lines_def winnable_def owner_is_def cell_at_def)
  have u: "USER = USER \<or> USER = COMPUTER" by simp
  from playerCanWin_none [OF v u n] v n show ?thesis by simp
qed

section \<open>The move strategies\<close>


lemma in_range_cases: "in_range i \<Longrightarrow> i = 0 \<or> i = 1 \<or> i = 2"
  unfolding in_range_def by arith


text \<open>
  The loop of \<^verbatim>\<open>ai_random\<close>: what it returns is an Empty cell of the board (fixpoint
  induction), and it does return when the source samples an Empty cell within \<open>n\<close> rounds
  (induction on \<open>n\<close>).
\<close>

lemma ai_random_loop_Some:
  assumes "ai_random_loop b s = Some y"
  shows "in_range (fst y) \<and> in_range (fst (snd y)) \<and> cell_at b (fst y) (fst (snd y)) = EMPTY"
proof (rule ai_random_loop.raw_induct
    [where P = "\<lambda>b s y. in_range (fst y) \<and> in_range (fst (snd y)) \<and>
                  cell_at b (fst y) (fst (snd y)) = EMPTY", OF _ assms])
  fix loop :: "board \<Rightarrow> rng \<Rightarrow> (int \<times> int \<times> rng) option" and b s y
  assume IH: "\<And>b s y. loop b s = Some y \<Longrightarrow>
      in_range (fst y) \<and> in_range (fst (snd y)) \<and> cell_at b (fst y) (fst (snd y)) = EMPTY"
    and step: "(case rand s of (x, s1) \<Rightarrow> case rand s1 of (y, s2) \<Rightarrow>
        if cell_at b (x mod 3) (y mod 3) \<noteq> EMPTY then loop b s2
        else Some (x mod 3, y mod 3, s2)) = Some y"
  show "in_range (fst y) \<and> in_range (fst (snd y)) \<and> cell_at b (fst y) (fst (snd y)) = EMPTY"
  proof (cases "cell_at b (int (shd s) mod 3) (int (shd (stl s)) mod 3) = EMPTY")
    case True
    with step have "y = (int (shd s) mod 3, int (shd (stl s)) mod 3, stl (stl s))"
      by (simp add: rand_def)
    with True show ?thesis by (simp add: in_range_def)
  next
    case False
    with step have "loop b (stl (stl s)) = Some y"
      by (simp add: rand_def)
    then show ?thesis by (rule IH)
  qed
qed




text \<open>
  \<^verbatim>\<open>ai_genious\<close> reads the detector's answer through \<^verbatim>\<open>row >= 0 && col >= 0\<close>; on the
  boards of the program that test separates a found cell from the sentinel.
\<close>

lemma ai_genious_genius_spec:
  assumes "valid_board b"
  shows "ai_genious b s = genius_spec b s"
proof -
  have u: "USER = USER \<or> USER = COMPUTER" and c: "COMPUTER = USER \<or> COMPUTER = COMPUTER"
    by simp_all
  have neg: "\<not> (row (Cell (- 1) (- 1)) \<ge> 0 \<and> col (Cell (- 1) (- 1)) \<ge> 0)" by simp
  have pos: "row (to_Cell rc) \<ge> 0 \<and> col (to_Cell rc) \<ge> 0" "row (to_Cell rc) = fst rc"
    "col (to_Cell rc) = snd rc" if "find_winning_cell b p = Some rc" for p rc
    using find_winning_cell_Some[OF that] by (simp_all add: to_Cell_def in_range_def)
  show ?thesis
    unfolding ai_genious_def genius_spec_def computerCanWin_def userCanWin_def Let_def
      playerCanWin_find_winning_cell[OF assms u] playerCanWin_find_winning_cell[OF assms c]
    using pos neg by (auto split: option.splits)
qed







text \<open>
  The precondition is needed: on a board with no Empty cell the loop of \<^verbatim>\<open>ai_random\<close> never
  returns, whatever \<^verbatim>\<open>rand()\<close> yields.
\<close>

lemma ai_random_full_board:
  assumes "board_full b"
  shows "ai_random_loop b s = None"
proof (cases "ai_random_loop b s")
  case None
  then show ?thesis .
next
  case (Some y)
  from ai_random_loop_Some[OF Some] have "in_range (fst y)" "in_range (fst (snd y))"
    and e: "cell_at b (fst y) (fst (snd y)) = EMPTY" by simp_all
  then have "(fst y, fst (snd y)) \<in> set all_cells"
    using in_range_cases[of "fst y"] in_range_cases[of "fst (snd y)"]
    by (auto simp: all_cells_def)
  with assms have "cell_at b (fst y) (fst (snd y)) \<noteq> EMPTY"
    by (auto simp: board_full_def list_all_iff owner_is_def simp del: EMPTY_def)
  with e show ?thesis by simp
qed








lemmas board_eval =
  cell_at_def set_cell_def playerCanWin_def computerCanWin_def userCanWin_def
  diag_ltr_def diag_rtl_def ai_genious_def

text \<open>
  Claim C1. On every board of the program \<^verbatim>\<open>ai_genious\<close> decides in the order of
  \<open>genius_spec\<close>: the centre if it is Empty; otherwise the cell the threat detector finds
  for the computer; otherwise the cell it finds for the user; otherwise Smart. On the empty
  board it claims (1,1).
\<close>

theorem ai_genious_decision_order:
  assumes "valid_board b"
  shows "ai_genious b s = genius_spec b s \<and>
         ai_genious empty_board s =
           Some ([[EMPTY, EMPTY, EMPTY], [EMPTY, COMPUTER, EMPTY], [EMPTY, EMPTY, EMPTY]], s)"
proof -
  have "ai_genious empty_board s =
           Some ([[EMPTY, EMPTY, EMPTY], [EMPTY, COMPUTER, EMPTY], [EMPTY, EMPTY, EMPTY]], s)"
    by (simp add: ai_genious_def empty_board_def cell_at_def set_cell_def)
  with ai_genious_genius_spec[OF assms] show ?thesis by simp
qed

theorem ai_genious_decision_order_witness:
  "valid_board [[USER, EMPTY, EMPTY], [COMPUTER, USER, EMPTY], [USER, COMPUTER, EMPTY]] \<and>
   ai_genious [[USER, EMPTY, EMPTY], [COMPUTER, USER, EMPTY], [USER, COMPUTER, EMPTY]] (sconst 0) =
     Some ([[USER, EMPTY, EMPTY], [COMPUTER, USER, EMPTY], [USER, COMPUTER, COMPUTER]], sconst 0)"
proof -
  let ?B = "[[USER, EMPTY, EMPTY], [COMPUTER, USER, EMPTY], [USER, COMPUTER, EMPTY]]"
  have v: "valid_board ?B" by (simp add: valid_board_def)
  have c: "find_winning_cell ?B COMPUTER = None"
    by (simp add: find_winning_cell_def lines_def winnable_def owner_is_def cell_at_def)
  have u: "find_winning_cell ?B USER = Some (2, 2)"
    by (simp add: find_winning_cell_def lines_def winnable_def owner_is_def cell_at_def)
  have "genius_spec ?B (sconst 0) =
     Some ([[USER, EMPTY, EMPTY], [COMPUTER, USER, EMPTY], [USER, COMPUTER, COMPUTER]], sconst 0)"
    unfolding genius_spec_def c u by (simp add: cell_at_def set_cell_def)
  with ai_genious_decision_order [OF v, of "sconst 0"] v show ?thesis by simp
qed

text \<open>
  Claim C2 as it is stated fails: on the board with the user at (0,0) and (0,1) and every
  other cell Empty the computer has no winning cell, and Genius claims the centre (1,1),
  not (0,2).
\<close>

theorem ai_genious_centre_before_block_counterexample:
  "playerCanWin [[USER, USER, EMPTY], [EMPTY, EMPTY, EMPTY], [EMPTY, EMPTY, EMPTY]] COMPUTER
     = Cell (- 1) (- 1) \<and>
   ai_genious [[USER, USER, EMPTY], [EMPTY, EMPTY, EMPTY], [EMPTY, EMPTY, EMPTY]] (sconst 0) =
     Some ([[USER, USER, EMPTY], [EMPTY, COMPUTER, EMPTY], [EMPTY, EMPTY, EMPTY]], sconst 0) \<and>
   ai_genious [[USER, USER, EMPTY], [EMPTY, EMPTY, EMPTY], [EMPTY, EMPTY, EMPTY]] (sconst 0) \<noteq>
     Some (set_cell [[USER, USER, EMPTY], [EMPTY, EMPTY, EMPTY], [EMPTY, EMPTY, EMPTY]] 0 2
             COMPUTER, sconst 0)"
  by (simp add: board_eval)

text \<open>
  Claim C2, as amended. On every board with the user at (0,0) and (0,1), (0,2) Empty, the
  centre (1,1) not Empty, and no winning cell for the computer, Genius claims (0,2).
\<close>

theorem ai_genious_blocks_top_row:
  assumes "cell_at b 1 1 \<noteq> EMPTY"
    and "cell_at b 0 0 = USER" and "cell_at b 0 1 = USER" and "cell_at b 0 2 = EMPTY"
    and "playerCanWin b COMPUTER = Cell (- 1) (- 1)"
  shows "ai_genious b s = Some (set_cell b 0 2 COMPUTER, s)"
proof -
  have "playerCanWin b USER = Cell 0 2"
    using assms(2-4) by (simp add: playerCanWin_def)
  with assms(1,5) show ?thesis
    by (simp add: ai_genious_def computerCanWin_def userCanWin_def)
qed

theorem ai_genious_blocks_top_row_witness:
  "cell_at [[USER, USER, EMPTY], [EMPTY, COMPUTER, EMPTY], [EMPTY, EMPTY, EMPTY]] 1 1 \<noteq> EMPTY \<and>
   playerCanWin [[USER, USER, EMPTY], [EMPTY, COMPUTER, EMPTY], [EMPTY, EMPTY, EMPTY]] COMPUTER
     = Cell (- 1) (- 1) \<and>
   ai_genious [[USER, USER, EMPTY], [EMPTY, COMPUTER, EMPTY], [EMPTY, EMPTY, EMPTY]] (sconst 0) =
     Some ([[USER, USER, COMPUTER], [EMPTY, COMPUTER, EMPTY], [EMPTY, EMPTY, EMPTY]], sconst 0)"
proof -
  let ?B = "[[USER, USER, EMPTY], [EMPTY, COMPUTER, EMPTY], [EMPTY, EMPTY, EMPTY]]"
  have h: "cell_at ?B 1 1 \<noteq> EMPTY" "cell_at ?B 0 0 = USER" "cell_at ?B 0 1 = USER"
    "cell_at ?B 0 2 = EMPTY"
    by (simp_all add: cell_at_def)
  have n: "playerCanWin ?B COMPUTER = Cell (- 1) (- 1)"
    by (simp add: playerCanWin_def diag_ltr_def diag_rtl_def cell_at_def)
  have "set_cell ?B 0 2 COMPUTER =
      [[USER, USER, COMPUTER], [EMPTY, COMPUTER, EMPTY], [EMPTY, EMPTY, EMPTY]]"
    by (simp add: set_cell_def)
  with ai_genious_blocks_top_row [OF h n, of "sconst 0"] h(1) n show ?thesis by simp
qed

text \<open>
  Claim C3 as it is stated fails: on the board with the computer at (0,0) and (0,1) and
  every other cell Empty, the computer holds two cells of the first row, the user
  threatens nothing, and Genius claims the centre (1,1), not the third cell (0,2).
\<close>

theorem ai_genious_centre_before_win_counterexample:
  "winnable [[COMPUTER, COMPUTER, EMPTY], [EMPTY, EMPTY, EMPTY], [EMPTY, EMPTY, EMPTY]] COMPUTER
     [(0, 0), (0, 1), (0, 2)] \<and>
   playerCanWin [[COMPUTER, COMPUTER, EMPTY], [EMPTY, EMPTY, EMPTY], [EMPTY, EMPTY, EMPTY]] USER
     = Cell (- 1) (- 1) \<and>
   ai_genious [[COMPUTER, COMPUTER, EMPTY], [EMPTY, EMPTY, EMPTY], [EMPTY, EMPTY, EMPTY]]
     (sconst 0) =
     Some ([[COMPUTER, COMPUTER, EMPTY], [EMPTY, COMPUTER, EMPTY], [EMPTY, EMPTY, EMPTY]],
           sconst 0) \<and>
   ai_genious [[COMPUTER, COMPUTER, EMPTY], [EMPTY, EMPTY, EMPTY], [EMPTY, EMPTY, EMPTY]]
     (sconst 0) \<noteq>
     Some (set_cell [[COMPUTER, COMPUTER, EMPTY], [EMPTY, EMPTY, EMPTY], [EMPTY, EMPTY, EMPTY]]
             0 2 COMPUTER, sconst 0)"
  by (simp add: board_eval winnable_def owner_is_def)

text \<open>
  Claim C3, as amended. On every board of the program whose centre is not Empty and on
  which the computer holds exactly two cells of some line whose third cell is Empty,
  Genius claims the Empty cell of the first such line in scan order, whether or not the
  user threatens a line as well.
\<close>

theorem ai_genious_completes_own_line:
  assumes "valid_board b" and "cell_at b 1 1 \<noteq> EMPTY"
    and "l \<in> set lines" and "winnable b COMPUTER l"
  shows "\<exists>l0 rc. find (winnable b COMPUTER) lines = Some l0 \<and> l0 \<in> set lines \<and>
           winnable b COMPUTER l0 \<and> find (owner_is b EMPTY) l0 = Some rc \<and> rc \<in> set l0 \<and>
           owner_is b EMPTY rc \<and>
           ai_genious b s = Some (set_cell b (fst rc) (snd rc) COMPUTER, s)"
proof -
  from first_winnable[OF assms(3,4)] obtain l0 rc where
    *: "find (winnable b COMPUTER) lines = Some l0" "l0 \<in> set lines" "winnable b COMPUTER l0"
       "find (owner_is b EMPTY) l0 = Some rc" "rc \<in> set l0" "owner_is b EMPTY rc"
       "find_winning_cell b COMPUTER = Some rc"
    by blast
  have "ai_genious b s = Some (set_cell b (fst rc) (snd rc) COMPUTER, s)"
    unfolding ai_genious_genius_spec[OF assms(1)] genius_spec_def *(7)
    using assms(2) by simp
  with * show ?thesis by blast
qed

theorem ai_genious_completes_own_line_witness:
  "valid_board [[USER, USER, EMPTY], [EMPTY, USER, EMPTY], [COMPUTER, EMPTY, COMPUTER]] \<and>
   cell_at [[USER, USER, EMPTY], [EMPTY, USER, EMPTY], [COMPUTER, EMPTY, COMPUTER]] 1 1 \<noteq> EMPTY \<and>
   winnable [[USER, USER, EMPTY], [EMPTY, USER, EMPTY], [COMPUTER, EMPTY, COMPUTER]] COMPUTER
     [(2, 0), (2, 1), (2, 2)] \<and>
   ai_genious [[USER, USER, EMPTY], [EMPTY, USER, EMPTY], [COMPUTER, EMPTY, COMPUTER]] (sconst 0) =
     Some ([[USER, USER, EMPTY], [EMPTY, USER, EMPTY], [COMPUTER, COMPUTER, COMPUTER]], sconst 0)"
proof -
  let ?B = "[[USER, USER, EMPTY], [EMPTY, USER, EMPTY], [COMPUTER, EMPTY, COMPUTER]]"
  have v: "valid_board ?B" by (simp add: valid_board_def)
  have m: "cell_at ?B 1 1 \<noteq> EMPTY" by (simp add: cell_at_def)
  have i: "[(2, 0), (2, 1), (2, 2)] \<in> set lines" by (simp add: lines_def)
  have w: "winnable ?B COMPUTER [(2, 0), (2, 1), (2, 2)]"
    by (simp add: winnable_def owner_is_def cell_at_def)
  have f: "find (winnable ?B COMPUTER) lines = Some [(2, 0), (2, 1), (2, 2)]"
    by (simp add: lines_def winnable_def owner_is_def cell_at_def)
  have e: "find (owner_is ?B EMPTY) [(2, 0), (2, 1), (2, 2)] = Some (2, 1)"
    by (simp add: owner_is_def cell_at_def)
  have x: "set_cell ?B 2 1 COMPUTER =
      [[USER, USER, EMPTY], [EMPTY, USER, EMPTY], [COMPUTER, COMPUTER, COMPUTER]]"
    by (simp add: set_cell_def)
  from ai_genious_completes_own_line [OF v m i w, of "sconst 0"] f e
  have "ai_genious ?B (sconst 0) = Some (set_cell ?B 2 1 COMPUTER, sconst 0)" by auto
  with v m w x show ?thesis by simp
qed

section \<open>The outcome evaluator\<close>

text \<open>
  The test of \<^verbatim>\<open>isGameOver\<close>, written around the middle squares, against the eight lines.
\<close>

lemma has_line_unfold:
  "has_line b p \<longleftrightarrow>
     (cell_at b 0 0 = p \<and> cell_at b 0 1 = p \<and> cell_at b 0 2 = p)
   \<or> (cell_at b 1 0 = p \<and> cell_at b 1 1 = p \<and> cell_at b 1 2 = p)
   \<or> (cell_at b 2 0 = p \<and> cell_at b 2 1 = p \<and> cell_at b 2 2 = p)
   \<or> (cell_at b 0 0 = p \<and> cell_at b 1 0 = p \<and> cell_at b 2 0 = p)
   \<or> (cell_at b 0 1 = p \<and> cell_at b 1 1 = p \<and> cell_at b 2 1 = p)
   \<or> (cell_at b 0 2 = p \<and> cell_at b 1 2 = p \<and> cell_at b 2 2 = p)
   \<or> (cell_at b 0 0 = p \<and> cell_at b 1 1 = p \<and> cell_at b 2 2 = p)
   \<or> (cell_at b 0 2 = p \<and> cell_at b 1 1 = p \<and> cell_at b 2 0 = p)"
  unfolding has_line_def lines_def owns_line_def owner_is_def
  by simp

lemma player_won_has_line: "player_won b p = has_line b p"
  unfolding player_won_def has_line_unfold
  by argo

lemma moreMoves_has_empty: "moreMoves b = has_empty b"
  unfolding moreMoves_def has_empty_def all_cells_def owner_is_def
  by (simp del: EMPTY_def)

lemma board_full_has_empty: "board_full b = (\<not> has_empty b)"
  unfolding board_full_def has_empty_def by (simp add: list_all_iff list_ex_iff)

lemma isGameOver_cases:
  "isGameOver b =
     (if has_line b USER then USER_WON
      else if has_line b COMPUTER then COMPUTER_WON
      else if has_empty b then IN_PROGRESS else DRAW)"
  by (simp add: isGameOver_def player_won_has_line moreMoves_has_empty)

text \<open>
  Claim C5, as amended. The middle-square test of \<^verbatim>\<open>isGameOver\<close> is true exactly when the
  player owns all three cells of one of the eight lines. The evaluator returns the user's
  win on every board where the user owns a line, and the computer's win on every board
  where the computer owns a line and the user owns none; in particular a user who owns
  (0,0), (1,1) and (2,2) has won, whatever the other cells hold.
\<close>

theorem isGameOver_line_owner_wins:
  "(\<forall>p. player_won b p = has_line b p) \<and>
   (has_line b USER \<longrightarrow> isGameOver b = USER_WON) \<and>
   (has_line b COMPUTER \<and> \<not> has_line b USER \<longrightarrow> isGameOver b = COMPUTER_WON) \<and>
   (cell_at b 0 0 = USER \<and> cell_at b 1 1 = USER \<and> cell_at b 2 2 = USER \<longrightarrow>
      isGameOver b = USER_WON)"
proof -
  have "has_line b USER" if "cell_at b 0 0 = USER \<and> cell_at b 1 1 = USER \<and> cell_at b 2 2 = USER"
    using that unfolding has_line_unfold by blast
  then show ?thesis
    by (simp add: isGameOver_cases player_won_has_line)
qed

theorem isGameOver_line_owner_wins_witness:
  "has_line [[USER, COMPUTER, EMPTY], [EMPTY, USER, COMPUTER], [EMPTY, EMPTY, USER]] USER \<and>
   isGameOver [[USER, COMPUTER, EMPTY], [EMPTY, USER, COMPUTER], [EMPTY, EMPTY, USER]] = USER_WON \<and>
   has_line [[COMPUTER, USER, EMPTY], [USER, COMPUTER, USER], [EMPTY, EMPTY, COMPUTER]] COMPUTER \<and>
   \<not> has_line [[COMPUTER, USER, EMPTY], [USER, COMPUTER, USER], [EMPTY, EMPTY, COMPUTER]] USER \<and>
   isGameOver [[COMPUTER, USER, EMPTY], [USER, COMPUTER, USER], [EMPTY, EMPTY, COMPUTER]]
     = COMPUTER_WON"
proof -
  have u: "has_line [[USER, COMPUTER, EMPTY], [EMPTY, USER, COMPUTER], [EMPTY, EMPTY, USER]] USER"
    by (simp add: has_line_unfold cell_at_def)
  have c: "has_line [[COMPUTER, USER, EMPTY], [USER, COMPUTER, USER], [EMPTY, EMPTY, COMPUTER]]
             COMPUTER"
    by (simp add: has_line_unfold cell_at_def)
  have n: "\<not> has_line [[COMPUTER, USER, EMPTY], [USER, COMPUTER, USER], [EMPTY, EMPTY, COMPUTER]]
             USER"
    by (simp add: has_line_unfold cell_at_def)
  from u c n
    isGameOver_line_owner_wins
      [of "[[USER, COMPUTER, EMPTY], [EMPTY, USER, COMPUTER], [EMPTY, EMPTY, USER]]"]
    isGameOver_line_owner_wins
      [of "[[COMPUTER, USER, EMPTY], [USER, COMPUTER, USER], [EMPTY, EMPTY, COMPUTER]]"]
  show ?thesis by blast
qed

text \<open>
  Claim C5 as it is stated fails: on the board whose first row is the user's and whose
  second row is the computer's, the computer owns all three cells of a line and the
  evaluator does not return the computer's win.
\<close>

theorem isGameOver_computer_line_counterexample:
  "has_line [[USER, USER, USER], [COMPUTER, COMPUTER, COMPUTER], [EMPTY, EMPTY, EMPTY]] COMPUTER \<and>
   isGameOver [[USER, USER, USER], [COMPUTER, COMPUTER, COMPUTER], [EMPTY, EMPTY, EMPTY]]
     \<noteq> COMPUTER_WON"
  by (simp add: isGameOver_cases has_line_unfold cell_at_def)

text \<open>
  Claim C6. With no completed line for either player, a board with no Empty cell is a
  Draw and a board with an Empty cell is InProgress. The win checks come first: a board
  with a completed line is a win and never a Draw, full or not.
\<close>

theorem isGameOver_draw_or_in_progress:
  "(\<not> has_line b USER \<and> \<not> has_line b COMPUTER \<and> board_full b \<longrightarrow> isGameOver b = DRAW) \<and>
   (\<not> has_line b USER \<and> \<not> has_line b COMPUTER \<and> has_empty b \<longrightarrow> isGameOver b = IN_PROGRESS) \<and>
   (has_line b USER \<or> has_line b COMPUTER \<longrightarrow>
      (isGameOver b = USER_WON \<or> isGameOver b = COMPUTER_WON) \<and> isGameOver b \<noteq> DRAW)"
  by (simp add: isGameOver_cases board_full_has_empty)

theorem isGameOver_draw_or_in_progress_witness:
  "\<not> has_line [[USER, COMPUTER, USER], [USER, COMPUTER, COMPUTER], [COMPUTER, USER, USER]] USER \<and>
   \<not> has_line [[USER, COMPUTER, USER], [USER, COMPUTER, COMPUTER], [COMPUTER, USER, USER]] COMPUTER \<and>
   board_full [[USER, COMPUTER, USER], [USER, COMPUTER, COMPUTER], [COMPUTER, USER, USER]] \<and>
   isGameOver [[USER, COMPUTER, USER], [USER, COMPUTER, COMPUTER], [COMPUTER, USER, USER]] = DRAW \<and>
   \<not> has_line [[USER, COMPUTER, EMPTY], [EMPTY, EMPTY, EMPTY], [EMPTY, EMPTY, EMPTY]] USER \<and>
   \<not> has_line [[USER, COMPUTER, EMPTY], [EMPTY, EMPTY, EMPTY], [EMPTY, EMPTY, EMPTY]] COMPUTER \<and>
   has_empty [[USER, COMPUTER, EMPTY], [EMPTY, EMPTY, EMPTY], [EMPTY, EMPTY, EMPTY]] \<and>
   isGameOver [[USER, COMPUTER, EMPTY], [EMPTY, EMPTY, EMPTY], [EMPTY, EMPTY, EMPTY]] = IN_PROGRESS \<and>
   has_line [[USER, USER, USER], [COMPUTER, COMPUTER, USER], [COMPUTER, USER, COMPUTER]] USER \<and>
   board_full [[USER, USER, USER], [COMPUTER, COMPUTER, USER], [COMPUTER, USER, COMPUTER]] \<and>
   isGameOver [[USER, USER, USER], [COMPUTER, COMPUTER, USER], [COMPUTER, USER, COMPUTER]] \<noteq> DRAW"
proof -
  have d: "\<not> has_line [[USER, COMPUTER, USER], [USER, COMPUTER, COMPUTER], [COMPUTER, USER, USER]] USER"
    "\<not> has_line [[USER, COMPUTER, USER], [USER, COMPUTER, COMPUTER], [COMPUTER, USER, USER]] COMPUTER"
    "board_full [[USER, COMPUTER, USER], [USER, COMPUTER, COMPUTER], [COMPUTER, USER, USER]]"
    by (simp_all add: has_line_unfold board_full_def all_cells_def owner_is_def cell_at_def)
  have p: "\<not> has_line [[USER, COMPUTER, EMPTY], [EMPTY, EMPTY, EMPTY], [EMPTY, EMPTY, EMPTY]] USER"
    "\<not> has_line [[USER, COMPUTER, EMPTY], [EMPTY, EMPTY, EMPTY], [EMPTY, EMPTY, EMPTY]] COMPUTER"
    "has_empty [[USER, COMPUTER, EMPTY], [EMPTY, EMPTY, EMPTY], [EMPTY, EMPTY, EMPTY]]"
    by (simp_all add: has_line_unfold has_empty_def all_cells_def owner_is_def cell_at_def)
  have w: "has_line [[USER, USER, USER], [COMPUTER, COMPUTER, USER], [COMPUTER, USER, COMPUTER]] USER"
    "board_full [[USER, USER, USER], [COMPUTER, COMPUTER, USER], [COMPUTER, USER, COMPUTER]]"
    by (simp_all add: has_line_unfold board_full_def all_cells_def owner_is_def cell_at_def)
  from d p w
    isGameOver_draw_or_in_progress
      [of "[[USER, COMPUTER, USER], [USER, COMPUTER, COMPUTER], [COMPUTER, USER, USER]]"]
    isGameOver_draw_or_in_progress
      [of "[[USER, COMPUTER, EMPTY], [EMPTY, EMPTY, EMPTY], [EMPTY, EMPTY, EMPTY]]"]
    isGameOver_draw_or_in_progress
      [of "[[USER, USER, USER], [COMPUTER, COMPUTER, USER], [COMPUTER, USER, COMPUTER]]"]
  show ?thesis by blast
qed

text \<open>
  Claim C10. On every board, reachable in play or not, where the user and the computer
  each own a complete line, the evaluator returns the user's win: the player loop tests
  the user first.
\<close>

theorem isGameOver_both_lines_user_wins:
  "has_line b USER \<Longrightarrow> has_line b COMPUTER \<Longrightarrow> isGameOver b = USER_WON"
  by (simp add: isGameOver_cases)

theorem isGameOver_both_lines_user_wins_witness:
  "has_line [[COMPUTER, USER, EMPTY], [COMPUTER, USER, EMPTY], [COMPUTER, USER, EMPTY]] USER \<and>
   has_line [[COMPUTER, USER, EMPTY], [COMPUTER, USER, EMPTY], [COMPUTER, USER, EMPTY]] COMPUTER \<and>
   isGameOver [[COMPUTER, USER, EMPTY], [COMPUTER, USER, EMPTY], [COMPUTER, USER, EMPTY]] = USER_WON"
proof -
  have u: "has_line [[COMPUTER, USER, EMPTY], [COMPUTER, USER, EMPTY], [COMPUTER, USER, EMPTY]] USER"
    by (simp add: has_line_unfold cell_at_def)
  have c: "has_line [[COMPUTER, USER, EMPTY], [COMPUTER, USER, EMPTY], [COMPUTER, USER, EMPTY]]
             COMPUTER"
    by (simp add: has_line_unfold cell_at_def)
  from u c isGameOver_both_lines_user_wins [OF u c] show ?thesis by blast
qed

end
